theory Spec2Isabelle
  imports Main "HOL-Library.Word"
begin

section \<open>Name-to-id resolution (passwd/pwnam.c)\<close>

text \<open>
  The file has two functions, \<^verbatim>\<open>de_username_to_uid\<close> and \<^verbatim>\<open>de_groupname_to_gid\<close>.
  Each asks \<^verbatim>\<open>sysconf\<close> for a buffer size, then loops at the label \<^verbatim>\<open>again\<close>:
  \<^verbatim>\<open>realloc\<close> the scratch buffer, call the reentrant lookup, double the length and
  jump back on \<^verbatim>\<open>ERANGE\<close>, otherwise free the buffer and return.

  Everything outside the file (the allocator, \<^verbatim>\<open>sysconf\<close>, the two lookups) is the
  environment. It is a record of functions, \<open>os\<close>, and the theorems hold for every such
  record: any suggestion, any database, any allocator. The environment does not change
  during a call: the answer of a lookup depends on the name and the buffer length, and
  whether an allocation succeeds depends on the size asked for. What the calls do to the
  process is explicit: a \<open>world\<close> carries the live heap blocks (address and size) and
  the log of the library calls made so far.
\<close>

subsection \<open>C types\<close>

text \<open>
  An LP64 target: \<^verbatim>\<open>size_t\<close> is 64-bit unsigned, \<^verbatim>\<open>long\<close> is 64-bit two's complement
  (a word read with \<open>sint\<close>), \<^verbatim>\<open>uid_t\<close> and \<^verbatim>\<open>gid_t\<close> are 32-bit unsigned. The C
  \<^verbatim>\<open>int\<close> of return values and error numbers never overflows here and is \<open>int\<close>.
\<close>

type_synonym size_t = "64 word"
type_synonym long = "64 word"
type_synonym uid_t = "32 word"
type_synonym gid_t = "32 word"
type_synonym addr = nat

abbreviation NULL :: addr where
  "NULL \<equiv> 0"

text \<open>The fields POSIX requires of \<^verbatim>\<open>struct passwd\<close> and \<^verbatim>\<open>struct group\<close>.\<close>

record passwd =
  pw_name :: string
  pw_uid :: uid_t
  pw_gid :: gid_t
  pw_dir :: string
  pw_shell :: string

record group =
  gr_name :: string
  gr_gid :: gid_t
  gr_mem :: "string list"

text \<open>\<^verbatim>\<open>ERANGE\<close> comes from \<^verbatim>\<open>errno.h\<close>; 34 is its value on Linux. The proofs use only
  that it is not 0.\<close>

definition ERANGE :: int where
  "ERANGE = 34"

text \<open>The \<^verbatim>\<open>long\<close> result of \<^verbatim>\<open>sysconf\<close> meets a \<^verbatim>\<open>size_t\<close> twice, in
  \<^verbatim>\<open>sz > buflen\<close> and in \<^verbatim>\<open>buflen = sz\<close>. Both convert the \<^verbatim>\<open>long\<close> to the unsigned
  type of the same width: the bits stay, a negative value \<open>v\<close> reads as \<open>2^64 + v\<close>.\<close>

definition long_to_size_t :: "long \<Rightarrow> size_t" where
  "long_to_size_t sz = word_of_int (sint sz)"

subsection \<open>The environment\<close>

datatype sc_name = SC_GETPW_R_SIZE_MAX | SC_GETGR_R_SIZE_MAX

datatype db = Passwd | Group

text \<open>
  \<open>os_getpwnam_r os name buflen\<close> is what \<^verbatim>\<open>getpwnam_r\<close> answers for this name with a
  buffer of this length: the returned error number, and the entry when \<^verbatim>\<open>*result\<close> is
  not null (it then points to the caller's struct, which holds the entry). No relation
  between the two components is assumed. \<open>os_can_alloc os n\<close> says whether the allocator
  can supply \<open>n\<close> bytes. \<open>os_realloc0_frees\<close> is the implementation-defined choice for
  \<^verbatim>\<open>realloc(p, 0)\<close> with \<open>p\<close> not null: free \<open>p\<close> and return null (glibc), or treat the
  request like any other size.
\<close>

record os =
  os_sysconf :: "sc_name \<Rightarrow> long"
  os_getpwnam_r :: "string \<Rightarrow> size_t \<Rightarrow> int \<times> passwd option"
  os_getgrnam_r :: "string \<Rightarrow> size_t \<Rightarrow> int \<times> group option"
  os_can_alloc :: "size_t \<Rightarrow> bool"
  os_realloc0_frees :: bool

datatype event =
    Sysconf sc_name
  | Realloc addr size_t addr
  | Lookup db string addr size_t
  | Free addr

record world =
  heap :: "(addr \<times> size_t) list"
  trace :: "event list"

definition log :: "event \<Rightarrow> world \<Rightarrow> world" where
  "log e w = w\<lparr>trace := trace w @ [e]\<rparr>"

text \<open>A fresh block gets an address above every live one, so never \<open>NULL\<close>.\<close>

definition fresh :: "(addr \<times> size_t) list \<Rightarrow> addr" where
  "fresh h = Suc (fold max (map fst h) 0)"

definition release :: "addr \<Rightarrow> (addr \<times> size_t) list \<Rightarrow> (addr \<times> size_t) list" where
  "release p h = (if p = NULL then h else filter (\<lambda>blk. fst blk \<noteq> p) h)"

definition sysconf :: "os \<Rightarrow> sc_name \<Rightarrow> world \<Rightarrow> long \<times> world" where
  "sysconf os n w = (os_sysconf os n, log (Sysconf n) w)"

text \<open>\<^verbatim>\<open>realloc\<close> as C defines it: on success the old block is gone and a new one of the
  requested size is live; on failure the result is null and the old block stays live.\<close>

definition realloc :: "os \<Rightarrow> addr \<Rightarrow> size_t \<Rightarrow> world \<Rightarrow> addr \<times> world" where
  "realloc os p n w =
     (if p \<noteq> NULL \<and> n = 0 \<and> os_realloc0_frees os
      then (NULL, log (Realloc p n NULL) (w\<lparr>heap := release p (heap w)\<rparr>))
      else if \<not> os_can_alloc os n
      then (NULL, log (Realloc p n NULL) w)
      else let q = fresh (heap w)
           in (q, log (Realloc p n q) (w\<lparr>heap := (q, n) # release p (heap w)\<rparr>)))"

definition free :: "addr \<Rightarrow> world \<Rightarrow> world" where
  "free p w = log (Free p) (w\<lparr>heap := release p (heap w)\<rparr>)"

definition getpwnam_r ::
  "os \<Rightarrow> string \<Rightarrow> addr \<Rightarrow> size_t \<Rightarrow> world \<Rightarrow> (int \<times> passwd option) \<times> world" where
  "getpwnam_r os name buf buflen w =
     (os_getpwnam_r os name buflen, log (Lookup Passwd name buf buflen) w)"

definition getgrnam_r ::
  "os \<Rightarrow> string \<Rightarrow> addr \<Rightarrow> size_t \<Rightarrow> world \<Rightarrow> (int \<times> group option) \<times> world" where
  "getgrnam_r os name buf buflen w =
     (os_getgrnam_r os name buflen, log (Lookup Group name buf buflen) w)"

subsection \<open>The two functions\<close>

text \<open>
  A call takes the content of the caller's output cell (\<^verbatim>\<open>*uid\<close>) and the world, and
  returns the C return value, the content of the cell afterwards and the world
  afterwards. The loop has no bound in the source, so the result is an option: \<open>None\<close> is
  a call that never returns.
\<close>

partial_function (option) pw_again ::
  "os \<Rightarrow> string \<Rightarrow> uid_t \<Rightarrow> addr \<Rightarrow> size_t \<Rightarrow> world \<Rightarrow> (int \<times> uid_t \<times> world) option" where
  "pw_again os name uid buf buflen w =
     (let (buf, w) = realloc os buf buflen w in
      if buf = NULL then Some (- 1, uid, w)
      else let ((ec, pp), w) = getpwnam_r os name buf buflen w in
        if ec = ERANGE then pw_again os name uid buf (buflen * 2) w
        else if ec \<noteq> 0 \<or> pp = None then Some (- 1, uid, free buf w)
        else Some (0, pw_uid (the pp), free buf w))"

declare pw_again.simps [code]

definition de_username_to_uid ::
  "os \<Rightarrow> string \<Rightarrow> uid_t \<Rightarrow> world \<Rightarrow> (int \<times> uid_t \<times> world) option" where
  "de_username_to_uid os name uid w =
     (let buflen = 1024;
          buf = NULL;
          (sz, w) = sysconf os SC_GETPW_R_SIZE_MAX w;
          buflen = (if long_to_size_t sz > buflen then long_to_size_t sz else buflen)
      in pw_again os name uid buf buflen w)"

partial_function (option) gr_again ::
  "os \<Rightarrow> string \<Rightarrow> gid_t \<Rightarrow> addr \<Rightarrow> size_t \<Rightarrow> world \<Rightarrow> (int \<times> gid_t \<times> world) option" where
  "gr_again os name gid buf buflen w =
     (let (buf, w) = realloc os buf buflen w in
      if buf = NULL then Some (- 1, gid, w)
      else let ((ec, pp), w) = getgrnam_r os name buf buflen w in
        if ec = ERANGE then gr_again os name gid buf (buflen * 2) w
        else if ec \<noteq> 0 \<or> pp = None then Some (- 1, gid, free buf w)
        else Some (0, gr_gid (the pp), free buf w))"

declare gr_again.simps [code]

definition de_groupname_to_gid ::
  "os \<Rightarrow> string \<Rightarrow> gid_t \<Rightarrow> world \<Rightarrow> (int \<times> gid_t \<times> world) option" where
  "de_groupname_to_gid os name gid w =
     (let buflen = 1024;
          buf = NULL;
          (sz, w) = sysconf os SC_GETGR_R_SIZE_MAX w;
          buflen = (if long_to_size_t sz > buflen then long_to_size_t sz else buflen)
      in gr_again os name gid buf buflen w)"

subsection \<open>One parameterised resolver\<close>

text \<open>
  The spec gives the group operation the contract of the user operation, on the group
  database and with a group identifier. \<open>de_name_to_id\<close> is the algorithm written once,
  over a \<open>category\<close>: which \<^verbatim>\<open>sysconf\<close> name it asks for, which database it queries, the
  lookup's answers, and the field of the entry it returns.
\<close>

record ('e, 'i) category =
  cat_sc :: sc_name
  cat_db :: db
  cat_query :: "string \<Rightarrow> size_t \<Rightarrow> int \<times> 'e option"
  cat_id :: "'e \<Rightarrow> 'i"

definition lookup_r ::
  "('e, 'i) category \<Rightarrow> string \<Rightarrow> addr \<Rightarrow> size_t \<Rightarrow> world \<Rightarrow> (int \<times> 'e option) \<times> world" where
  "lookup_r c name buf buflen w =
     (cat_query c name buflen, log (Lookup (cat_db c) name buf buflen) w)"

partial_function (option) again ::
  "os \<Rightarrow> ('e, 'i) category \<Rightarrow> string \<Rightarrow> 'i \<Rightarrow> addr \<Rightarrow> size_t \<Rightarrow> world
     \<Rightarrow> (int \<times> 'i \<times> world) option" where
  "again os c name ident buf buflen w =
     (let (buf, w) = realloc os buf buflen w in
      if buf = NULL then Some (- 1, ident, w)
      else let ((ec, pp), w) = lookup_r c name buf buflen w in
        if ec = ERANGE then again os c name ident buf (buflen * 2) w
        else if ec \<noteq> 0 \<or> pp = None then Some (- 1, ident, free buf w)
        else Some (0, cat_id c (the pp), free buf w))"

declare again.simps [code]

definition de_name_to_id ::
  "os \<Rightarrow> ('e, 'i) category \<Rightarrow> string \<Rightarrow> 'i \<Rightarrow> world \<Rightarrow> (int \<times> 'i \<times> world) option" where
  "de_name_to_id os c name ident w =
     (let buflen = 1024;
          buf = NULL;
          (sz, w) = sysconf os (cat_sc c) w;
          buflen = (if long_to_size_t sz > buflen then long_to_size_t sz else buflen)
      in again os c name ident buf buflen w)"

definition user_category :: "os \<Rightarrow> (passwd, uid_t) category" where
  "user_category os =
     \<lparr>cat_sc = SC_GETPW_R_SIZE_MAX, cat_db = Passwd,
      cat_query = os_getpwnam_r os, cat_id = pw_uid\<rparr>"

definition group_category :: "os \<Rightarrow> (group, gid_t) category" where
  "group_category os =
     \<lparr>cat_sc = SC_GETGR_R_SIZE_MAX, cat_db = Group,
      cat_query = os_getgrnam_r os, cat_id = gr_gid\<rparr>"

subsection \<open>Vocabulary of the properties\<close>

text \<open>The spec's category selector: choosing which of the two operations to call.\<close>

fun resolve ::
  "db \<Rightarrow> os \<Rightarrow> string \<Rightarrow> 32 word \<Rightarrow> world \<Rightarrow> (int \<times> 32 word \<times> world) option" where
  "resolve Passwd = de_username_to_uid"
| "resolve Group = de_groupname_to_gid"

text \<open>And the loop of the operation chosen.\<close>

fun again_of ::
  "db \<Rightarrow> os \<Rightarrow> string \<Rightarrow> 32 word \<Rightarrow> addr \<Rightarrow> size_t \<Rightarrow> world
     \<Rightarrow> (int \<times> 32 word \<times> world) option" where
  "again_of Passwd = pw_again"
| "again_of Group = gr_again"

fun sc_of :: "db \<Rightarrow> sc_name" where
  "sc_of Passwd = SC_GETPW_R_SIZE_MAX"
| "sc_of Group = SC_GETGR_R_SIZE_MAX"

text \<open>What the lookup of a database answers for a name and a buffer length: the error
  number it reports, and the identifier of the entry it hands back, if any.\<close>

fun reported :: "db \<Rightarrow> os \<Rightarrow> string \<Rightarrow> size_t \<Rightarrow> int" where
  "reported Passwd os name n = fst (os_getpwnam_r os name n)"
| "reported Group os name n = fst (os_getgrnam_r os name n)"

fun matched :: "db \<Rightarrow> os \<Rightarrow> string \<Rightarrow> size_t \<Rightarrow> 32 word option" where
  "matched Passwd os name n = map_option pw_uid (snd (os_getpwnam_r os name n))"
| "matched Group os name n = map_option gr_gid (snd (os_getgrnam_r os name n))"

text \<open>The value of \<^verbatim>\<open>buflen\<close> when control first reaches \<^verbatim>\<open>again\<close> (the initialiser
  1024 and the \<^verbatim>\<open>if (sz > buflen) buflen = sz\<close> after \<^verbatim>\<open>sysconf\<close>).\<close>

definition first_buflen :: "os \<Rightarrow> db \<Rightarrow> size_t" where
  "first_buflen os d =
     (let sz = long_to_size_t (os_sysconf os (sc_of d))
      in if sz > 1024 then sz else 1024)"

text \<open>Whether \<^verbatim>\<open>realloc\<close> returns a block for the \<open>j\<close>-th pass through \<^verbatim>\<open>again\<close>
  (counted from 0) with length \<open>n\<close>. From the second pass on the old buffer is not null,
  so a zero length meets the implementation-defined case.\<close>

definition grants :: "os \<Rightarrow> nat \<Rightarrow> size_t \<Rightarrow> bool" where
  "grants os j n = (os_can_alloc os n \<and> (j = 0 \<or> n \<noteq> 0 \<or> \<not> os_realloc0_frees os))"

text \<open>Two conditions on the environment. An allocator that refuses every request of
  \<open>2^63\<close> bytes or more (more than \<^verbatim>\<open>PTRDIFF_MAX\<close>, the bound real allocators enforce);
  and a lookup that reports something other than \<^verbatim>\<open>ERANGE\<close> for every length from \<open>N\<close> on.\<close>

definition bounded_allocator :: "os \<Rightarrow> bool" where
  "bounded_allocator os = (\<forall>n\<ge>2 ^ 63. \<not> os_can_alloc os n)"

definition fits_from :: "db \<Rightarrow> os \<Rightarrow> string \<Rightarrow> size_t \<Rightarrow> bool" where
  "fits_from d os name N = (\<forall>n\<ge>N. reported d os name n \<noteq> ERANGE)"

text \<open>The library calls a call has added to the log.\<close>

definition new_events :: "world \<Rightarrow> world \<Rightarrow> event list" where
  "new_events w w' = drop (length (trace w)) (trace w')"

fun realloc_calls :: "event list \<Rightarrow> (addr \<times> size_t \<times> addr) list" where
  "realloc_calls [] = []"
| "realloc_calls (Realloc p n q # es) = (p, n, q) # realloc_calls es"
| "realloc_calls (_ # es) = realloc_calls es"

definition realloc_sizes :: "event list \<Rightarrow> size_t list" where
  "realloc_sizes es = map (\<lambda>c. fst (snd c)) (realloc_calls es)"

definition last_realloc :: "event list \<Rightarrow> (addr \<times> size_t \<times> addr) option" where
  "last_realloc es = (case realloc_calls es of [] \<Rightarrow> None | c # cs \<Rightarrow> Some (last (c # cs)))"

fun lookup_calls :: "event list \<Rightarrow> (db \<times> string \<times> size_t) list" where
  "lookup_calls [] = []"
| "lookup_calls (Lookup d name p n # es) = (d, name, n) # lookup_calls es"
| "lookup_calls (_ # es) = lookup_calls es"

fun sysconf_calls :: "event list \<Rightarrow> sc_name list" where
  "sysconf_calls [] = []"
| "sysconf_calls (Sysconf n # es) = n # sysconf_calls es"
| "sysconf_calls (_ # es) = sysconf_calls es"


text \<open>
  The runs of the loop as a relation, for the proofs: \<open>run can ec hit d name ident buf b es r u\<close>
  holds when the loop, entered with buffer \<open>buf\<close>, length \<open>b\<close> and \<open>ident\<close> in the output
  cell, can log \<open>es\<close> and return \<open>r\<close> with \<open>u\<close> in the cell. \<open>can n\<close> says whether the
  allocator can supply \<open>n\<close> bytes; \<open>ec n\<close> and \<open>hit n\<close> are the lookup's answer for length
  \<open>n\<close>: the error number and the entry's identifier.
\<close>

inductive run ::
  "(size_t \<Rightarrow> bool) \<Rightarrow> (size_t \<Rightarrow> int) \<Rightarrow> (size_t \<Rightarrow> 'v option) \<Rightarrow> db \<Rightarrow> string \<Rightarrow> 'v
     \<Rightarrow> addr \<Rightarrow> size_t \<Rightarrow> event list \<Rightarrow> int \<Rightarrow> 'v \<Rightarrow> bool"
  for can :: "size_t \<Rightarrow> bool" and ec :: "size_t \<Rightarrow> int" and hit :: "size_t \<Rightarrow> 'v option"
    and d :: db and name :: string and ident :: 'v where
  alloc_failed:
    "run can ec hit d name ident buf b [Realloc buf b NULL] (- 1) ident"
| lookup_failed:
    "q \<noteq> NULL \<Longrightarrow> can b \<Longrightarrow> ec b \<noteq> ERANGE \<Longrightarrow> ec b \<noteq> 0 \<or> hit b = None \<Longrightarrow>
     run can ec hit d name ident buf b [Realloc buf b q, Lookup d name q b, Free q] (- 1) ident"
| found:
    "q \<noteq> NULL \<Longrightarrow> can b \<Longrightarrow> ec b = 0 \<Longrightarrow> hit b = Some v \<Longrightarrow>
     run can ec hit d name ident buf b [Realloc buf b q, Lookup d name q b, Free q] 0 v"
| retry:
    "q \<noteq> NULL \<Longrightarrow> can b \<Longrightarrow> ec b = ERANGE \<Longrightarrow>
     run can ec hit d name ident q (2 * b) es r u \<Longrightarrow>
     run can ec hit d name ident buf b (Realloc buf b q # Lookup d name q b # es) r u"

text \<open>The answers of a category's lookup in that form.\<close>

definition ec_of :: "('e, 'i) category \<Rightarrow> string \<Rightarrow> size_t \<Rightarrow> int" where
  "ec_of c name n = fst (cat_query c name n)"

definition hit_of :: "('e, 'i) category \<Rightarrow> string \<Rightarrow> size_t \<Rightarrow> 'i option" where
  "hit_of c name n = map_option (cat_id c) (snd (cat_query c name n))"

subsection \<open>Concrete environments\<close>

definition alice :: passwd where
  "alice = \<lparr>pw_name = ''alice'', pw_uid = 1000, pw_gid = 100,
            pw_dir = ''/home/alice'', pw_shell = ''/bin/sh''\<rparr>"

definition staff :: group where
  "staff = \<lparr>gr_name = ''staff'', gr_gid = 50, gr_mem = [''alice'']\<rparr>"

definition w0 :: world where
  "w0 = \<lparr>heap = [], trace = []\<rparr>"

text \<open>A glibc-like system: \<^verbatim>\<open>sysconf\<close> suggests 1024 bytes, the entries of \<open>alice\<close> and
  \<open>staff\<close> need 4096, other names are absent, and the allocator supplies up to 64 KiB.\<close>

definition os_small :: os where
  "os_small =
     \<lparr>os_sysconf = (\<lambda>_. 1024),
      os_getpwnam_r = (\<lambda>name n.
         if name = ''alice'' then (if n < 4096 then (ERANGE, None) else (0, Some alice))
         else (0, None)),
      os_getgrnam_r = (\<lambda>name n.
         if name = ''staff'' then (if n < 4096 then (ERANGE, None) else (0, Some staff))
         else (0, None)),
      os_can_alloc = (\<lambda>n. n \<le> 65536),
      os_realloc0_frees = True\<rparr>"

text \<open>The same system when memory is short: 1024 bytes can be had, 2048 cannot.\<close>

definition os_short :: os where
  "os_short = os_small\<lparr>os_can_alloc := (\<lambda>n. n \<le> 1024)\<rparr>"

text \<open>The same system with a suggestion of 512 bytes.\<close>

definition os_hint512 :: os where
  "os_hint512 = os_small\<lparr>os_sysconf := (\<lambda>_. 512)\<rparr>"

text \<open>A system without a suggestion: \<^verbatim>\<open>sysconf\<close> returns -1 (as musl does). Its
  allocator supplies less than \<open>2^47\<close> bytes.\<close>

definition os_no_hint :: os where
  "os_no_hint = os_small\<lparr>os_sysconf := (\<lambda>_. - 1), os_can_alloc := (\<lambda>n. n < 2 ^ 47)\<rparr>"

text \<open>A system where \<^verbatim>\<open>sysconf\<close> returns \<^verbatim>\<open>LONG_MIN\<close> and the allocator supplies any
  size.\<close>

definition os_grants_all :: os where
  "os_grants_all = os_small\<lparr>os_sysconf := (\<lambda>_. - (2 ^ 63)), os_can_alloc := (\<lambda>n. True)\<rparr>"

text \<open>An abstract machine whose allocator supplies any size and whose lookups always
  report \<^verbatim>\<open>ERANGE\<close>; \<^verbatim>\<open>sysconf\<close> suggests \<open>2^62\<close> bytes.\<close>

definition os_wrap :: os where
  "os_wrap =
     \<lparr>os_sysconf = (\<lambda>_. 2 ^ 62),
      os_getpwnam_r = (\<lambda>name n. (ERANGE, None)),
      os_getgrnam_r = (\<lambda>name n. (ERANGE, None)),
      os_can_alloc = (\<lambda>n. True),
      os_realloc0_frees = True\<rparr>"

text \<open>The same lookups, which never fit, with an allocator that supplies less than
  \<open>2^63\<close> bytes.\<close>

definition os_wrap_bounded :: os where
  "os_wrap_bounded = os_wrap\<lparr>os_can_alloc := (\<lambda>n. n < 2 ^ 63)\<rparr>"

text \<open>An abstract machine whose allocator supplies any size (a zero-length request
  included) and whose lookups fit only in a buffer of the maximal length \<open>2^64 - 1\<close>.\<close>

definition os_spin :: os where
  "os_spin =
     \<lparr>os_sysconf = (\<lambda>_. 1024),
      os_getpwnam_r = (\<lambda>name n. if n = - 1 then (0, None) else (ERANGE, None)),
      os_getgrnam_r = (\<lambda>name n. if n = - 1 then (0, None) else (ERANGE, None)),
      os_can_alloc = (\<lambda>n. True),
      os_realloc0_frees = False\<rparr>"

text \<open>The worlds some calls below end in.\<close>

definition w_alice :: world where
  "w_alice = \<lparr>heap = [], trace = [Sysconf SC_GETPW_R_SIZE_MAX, Realloc NULL 1024 1,
      Lookup Passwd ''alice'' 1 1024, Realloc 1 2048 2, Lookup Passwd ''alice'' 2 2048,
      Realloc 2 4096 3, Lookup Passwd ''alice'' 3 4096, Free 3]\<rparr>"

definition w_bob :: world where
  "w_bob = \<lparr>heap = [], trace = [Sysconf SC_GETPW_R_SIZE_MAX, Realloc NULL 1024 1,
      Lookup Passwd ''bob'' 1 1024, Free 1]\<rparr>"



definition w_wrap :: world where
  "w_wrap = \<lparr>heap = [], trace = [Sysconf SC_GETPW_R_SIZE_MAX,
      Realloc NULL 4611686018427387904 1, Lookup Passwd ''alice'' 1 4611686018427387904,
      Realloc 1 9223372036854775808 2, Lookup Passwd ''alice'' 2 9223372036854775808,
      Realloc 2 0 NULL]\<rparr>"

subsection \<open>The scratch buffer in the heap\<close>

text \<open>\<open>holds_only buf h w\<close>: the heap of \<open>w\<close> is \<open>h\<close> plus the scratch buffer \<open>buf\<close>, if any.\<close>

definition holds_only :: "addr \<Rightarrow> (addr \<times> size_t) list \<Rightarrow> world \<Rightarrow> bool" where
  "holds_only buf h w =
     (if buf = NULL then heap w = h else buf \<notin> fst ` set h \<and> (\<exists>m. heap w = (buf, m) # h))"

text \<open>\<open>leaked h tr r w'\<close>: a call that started with log \<open>tr\<close> and the heap \<open>h\<close> (its own
  buffer aside) has returned -1 in the world \<open>w'\<close>, where a block \<open>p\<close> is live on top of
  \<open>h\<close>, and the last \<^verbatim>\<open>realloc\<close> it logged was of \<open>p\<close> and returned null.\<close>

definition leaked :: "(addr \<times> size_t) list \<Rightarrow> event list \<Rightarrow> int \<Rightarrow> world \<Rightarrow> bool" where
  "leaked h tr r w' =
     (\<exists>p n m es. p \<noteq> NULL \<and> r = - 1 \<and> heap w' = (p, m) # h \<and>
        trace w' = tr @ es \<and> last_realloc es = Some (p, n, NULL))"

section \<open>Both functions are the parameterised resolver\<close>

lemma ERANGE_neq [simp]: "ERANGE \<noteq> 0" "ERANGE \<noteq> - 1"
  by (simp_all add: ERANGE_def)

lemma user_category_simps [simp]:
  "cat_sc (user_category os) = SC_GETPW_R_SIZE_MAX"
  "cat_db (user_category os) = Passwd"
  "cat_query (user_category os) = os_getpwnam_r os"
  "cat_id (user_category os) = pw_uid"
  by (simp_all add: user_category_def)

lemma group_category_simps [simp]:
  "cat_sc (group_category os) = SC_GETGR_R_SIZE_MAX"
  "cat_db (group_category os) = Group"
  "cat_query (group_category os) = os_getgrnam_r os"
  "cat_id (group_category os) = gr_gid"
  by (simp_all add: group_category_def)

lemma lookup_user: "lookup_r (user_category os) = getpwnam_r os"
  by (intro ext) (simp add: lookup_r_def getpwnam_r_def)

lemma lookup_group: "lookup_r (group_category os) = getgrnam_r os"
  by (intro ext) (simp add: lookup_r_def getgrnam_r_def)

text \<open>Induction over the returning calls of each loop: the rule the definition of a
  partial function yields, with the returning call as the major premise.\<close>

lemmas pw_again_induct = pw_again.raw_induct[rotated -1, consumes 1, case_names step]
lemmas gr_again_induct = gr_again.raw_induct[rotated -1, consumes 1, case_names step]
lemmas again_induct = again.raw_induct[rotated -1, consumes 1, case_names step]

lemma pw_again_le:
  "pw_again os name uid buf b w = Some y \<Longrightarrow>
   again os (user_category os) name uid buf b w = Some y"
proof (induction rule: pw_again_induct)
  case (step f os name uid buf b w y)
  from step(2) show ?case
    by (subst again.simps, cases y)
       (auto simp: lookup_user Let_def split: prod.splits if_splits intro: step(1))
qed

lemma pw_again_ge:
  "again os c name uid buf b w = Some y \<Longrightarrow> c = user_category os \<Longrightarrow>
   pw_again os name uid buf b w = Some y"
proof (induction rule: again_induct)
  case (step f os c name uid buf b w y)
  from step(2,3) show ?case
    by (subst pw_again.simps, cases y)
       (auto simp: lookup_user Let_def split: prod.splits if_splits intro: step(1))
qed

lemma pw_again_eq:
  "pw_again os name uid buf b w = again os (user_category os) name uid buf b w"
proof (cases "pw_again os name uid buf b w")
  case None
  show ?thesis
  proof (cases "again os (user_category os) name uid buf b w")
    case (Some y)
    with pw_again_ge [OF Some refl] None show ?thesis by simp
  qed (simp add: None)
next
  case (Some y)
  with pw_again_le [OF Some] show ?thesis by simp
qed

lemma gr_again_le:
  "gr_again os name gid buf b w = Some y \<Longrightarrow>
   again os (group_category os) name gid buf b w = Some y"
proof (induction rule: gr_again_induct)
  case (step f os name gid buf b w y)
  from step(2) show ?case
    by (subst again.simps, cases y)
       (auto simp: lookup_group Let_def split: prod.splits if_splits intro: step(1))
qed

lemma gr_again_ge:
  "again os c name gid buf b w = Some y \<Longrightarrow> c = group_category os \<Longrightarrow>
   gr_again os name gid buf b w = Some y"
proof (induction rule: again_induct)
  case (step f os c name gid buf b w y)
  from step(2,3) show ?case
    by (subst gr_again.simps, cases y)
       (auto simp: lookup_group Let_def split: prod.splits if_splits intro: step(1))
qed

lemma gr_again_eq:
  "gr_again os name gid buf b w = again os (group_category os) name gid buf b w"
proof (cases "gr_again os name gid buf b w")
  case None
  show ?thesis
  proof (cases "again os (group_category os) name gid buf b w")
    case (Some y)
    with gr_again_ge [OF Some refl] None show ?thesis by simp
  qed (simp add: None)
next
  case (Some y)
  with gr_again_le [OF Some] show ?thesis by simp
qed

lemma de_username_to_uid_eq:
  "de_username_to_uid os name uid w = de_name_to_id os (user_category os) name uid w"
  by (simp add: de_username_to_uid_def de_name_to_id_def pw_again_eq)

lemma de_groupname_to_gid_eq:
  "de_groupname_to_gid os name gid w = de_name_to_id os (group_category os) name gid w"
  by (simp add: de_groupname_to_gid_def de_name_to_id_def gr_again_eq)

section \<open>Every returning call is a run\<close>

lemma fresh_not_null [simp]: "fresh h \<noteq> NULL"
  by (simp add: fresh_def)

lemma fresh_pos [simp]: "0 < fresh h"
  by (simp add: fresh_def)

lemma trace_log [simp]: "trace (log e w) = trace w @ [e]"
  by (simp add: log_def)

lemma heap_log [simp]: "heap (log e w) = heap w"
  by (simp add: log_def)

lemma realloc_trace:
  "realloc os buf b w = (q, w1) \<Longrightarrow> trace w1 = trace w @ [Realloc buf b q]"
  by (auto simp: realloc_def Let_def split: if_splits)

lemma realloc_null_iff:
  "realloc os buf b w = (q, w1) \<Longrightarrow>
   q \<noteq> NULL \<longleftrightarrow> os_can_alloc os b \<and> (buf = NULL \<or> b \<noteq> 0 \<or> \<not> os_realloc0_frees os)"
  by (auto simp: realloc_def Let_def split: if_splits)

lemma trace_free [simp]: "trace (free p w) = trace w @ [Free p]"
  by (simp add: free_def)

lemma again_run_aux:
  "again os c name ident buf b w = Some y \<Longrightarrow>
   \<exists>es. trace (snd (snd y)) = trace w @ es \<and>
        run (os_can_alloc os) (ec_of c name) (hit_of c name) (cat_db c) name ident buf b es (fst y) (fst (snd y))"
proof (induction rule: again_induct)
  case (step f os c name ident buf b w y)
  obtain q w1 where r: "realloc os buf b w = (q, w1)" by fastforce
  note t1 = realloc_trace [OF r]
  note can = realloc_null_iff [OF r]
  show ?case
  proof (cases "q = NULL")
    case True
    with step(2) r t1 show ?thesis
      by (auto intro: run.alloc_failed)
  next
    case q: False
    obtain ec pp where a: "cat_query c name b = (ec, pp)" by fastforce
    show ?thesis
    proof (cases "ec = ERANGE")
      case True
      with step(2) r q a have "f os c name ident q (b * 2) (log (Lookup (cat_db c) name q b) w1) = Some y"
        by (simp add: lookup_r_def)
      from step(1) [OF this] obtain es where
        es: "trace (snd (snd y)) = (trace w1 @ [Lookup (cat_db c) name q b]) @ es"
            "run (os_can_alloc os) (ec_of c name) (hit_of c name) (cat_db c) name ident q (b * 2) es (fst y) (fst (snd y))"
        by auto
      from q can True a es(2)
      have "run (os_can_alloc os) (ec_of c name) (hit_of c name) (cat_db c) name ident buf b
              (Realloc buf b q # Lookup (cat_db c) name q b # es) (fst y) (fst (snd y))"
        by (intro run.retry) (simp_all add: ec_of_def mult.commute)
      with es(1) t1 show ?thesis by auto
    next
      case False
      show ?thesis
      proof (cases "ec \<noteq> 0 \<or> pp = None")
        case True
        with step(2) r q a False
        have y: "y = (- 1, ident, free q (log (Lookup (cat_db c) name q b) w1))"
          by (auto simp: lookup_r_def)
        from q can a False True
        have "run (os_can_alloc os) (ec_of c name) (hit_of c name) (cat_db c) name ident buf b
                [Realloc buf b q, Lookup (cat_db c) name q b, Free q] (- 1) ident"
          by (intro run.lookup_failed) (auto simp: ec_of_def hit_of_def)
        with y t1 show ?thesis by simp
      next
        case ok: False
        then obtain e where e: "pp = Some e" and ec: "ec = 0" by auto
        with step(2) r q a
        have y: "y = (0, cat_id c e, free q (log (Lookup (cat_db c) name q b) w1))"
          by (auto simp: lookup_r_def)
        from q can a e ec
        have "run (os_can_alloc os) (ec_of c name) (hit_of c name) (cat_db c) name ident buf b
                [Realloc buf b q, Lookup (cat_db c) name q b, Free q] 0 (cat_id c e)"
          by (intro run.found) (auto simp: ec_of_def hit_of_def)
        with y t1 show ?thesis by simp
      qed
    qed
  qed
qed

lemma new_events_append [simp]: "trace w' = trace w @ es \<Longrightarrow> new_events w w' = es"
  by (simp add: new_events_def)


lemma de_name_to_id_run:
  assumes "de_name_to_id os c name ident w = Some (r, u, w')"
  shows "\<exists>es. trace w' = trace w @ Sysconf (cat_sc c) # es \<and>
           run (os_can_alloc os) (ec_of c name) (hit_of c name) (cat_db c) name ident NULL
             (let sz = long_to_size_t (os_sysconf os (cat_sc c)) in if sz > 1024 then sz else 1024)
             es r u"
  using again_run_aux [of os c name ident NULL _ "log (Sysconf (cat_sc c)) w" "(r, u, w')"] assms
  by (auto simp: de_name_to_id_def sysconf_def Let_def split: if_splits)

lemma answers_user:
  "ec_of (user_category os) name = reported Passwd os name"
  "hit_of (user_category os) name = matched Passwd os name"
  by (simp_all add: ec_of_def hit_of_def fun_eq_iff)

lemma answers_group:
  "ec_of (group_category os) name = reported Group os name"
  "hit_of (group_category os) name = matched Group os name"
  by (simp_all add: ec_of_def hit_of_def fun_eq_iff)

lemma resolve_run:
  assumes "resolve d os name ident w = Some (r, u, w')"
  shows "\<exists>es. trace w' = trace w @ Sysconf (sc_of d) # es \<and>
           run (os_can_alloc os) (reported d os name) (matched d os name) d name ident NULL
             (first_buflen os d) es r u"
proof (cases d)
  case Passwd
  with assms de_name_to_id_run [of os "user_category os" name ident w r u w']
  show ?thesis
    by (simp add: de_username_to_uid_eq answers_user first_buflen_def)
next
  case Group
  with assms de_name_to_id_run [of os "group_category os" name ident w r u w']
  show ?thesis
    by (simp add: de_groupname_to_gid_eq answers_group first_buflen_def)
qed

subsection \<open>What a run tells\<close>

lemma run_ret: "run can ec hit d name ident buf b es r u \<Longrightarrow> r = 0 \<or> r = - 1"
  by (induction rule: run.induct) auto

lemma run_failure_keeps: "run can ec hit d name ident buf b es r u \<Longrightarrow> r \<noteq> 0 \<Longrightarrow> u = ident"
  by (induction rule: run.induct) auto




lemma run_sizes:
  "run can ec hit d name ident buf b es r u \<Longrightarrow>
   (\<exists>ns. realloc_sizes es = b # ns) \<and> successively (\<lambda>m n. n = 2 * m) (realloc_sizes es)"
  by (induction rule: run.induct) (auto simp: realloc_sizes_def)

lemma run_no_sysconf: "run can ec hit d name ident buf b es r u \<Longrightarrow> sysconf_calls es = []"
  by (induction rule: run.induct) auto


lemma run_can:
  "run can ec hit d name ident buf b es r u \<Longrightarrow>
   \<forall>c \<in> set (realloc_calls es). snd (snd c) \<noteq> NULL \<longrightarrow> can (fst (snd c))"
  by (induction rule: run.induct) auto

lemma double_grows_iff: "(m::size_t) < 2 * m \<longleftrightarrow> m \<noteq> 0 \<and> m < 2 ^ 63"
proof -
  have u: "unat (2 * m) = (2 * unat m) mod 2 ^ 64"
    by (simp add: unat_word_ariths)
  have b: "unat m < 2 ^ 64" using unsigned_less [of m] by simp
  have z: "m \<noteq> 0 \<longleftrightarrow> unat m \<noteq> 0" by (simp add: unat_eq_0)
  have h: "m < 2 ^ 63 \<longleftrightarrow> unat m < 2 ^ 63" by (simp add: word_less_nat_alt)
  show ?thesis
  proof (cases "unat m < 2 ^ 63")
    case True
    then have "unat (2 * m) = 2 * unat m" using u by simp
    then show ?thesis using True z h by (auto simp: word_less_nat_alt)
  next
    case False
    then have "(2 * unat m) mod 2 ^ 64 = 2 * unat m - 2 ^ 64"
      using b by (simp add: mod_if le_mod_geq)
    then have "unat (2 * m) < unat m \<or> unat (2 * m) = unat m" using u b False by auto
    then show ?thesis using False h by (auto simp: word_less_nat_alt)
  qed
qed

lemma run_doubles:
  "run can ec hit d name ident buf b es r u \<Longrightarrow>
   (\<exists>ns. realloc_sizes es = b # ns) \<and>
   successively (\<lambda>m n. n = 2 * m \<and> (m < n \<longleftrightarrow> m \<noteq> 0 \<and> m < 2 ^ 63)) (realloc_sizes es)"
  by (induction rule: run.induct) (auto simp: realloc_sizes_def double_grows_iff)

lemma run_grows:
  "run can ec hit d name ident buf b es r u \<Longrightarrow> \<forall>n\<ge>2 ^ 63. \<not> can n \<Longrightarrow> b \<noteq> 0 \<Longrightarrow>
   (\<exists>ns. realloc_sizes es = b # ns) \<and> successively (<) (realloc_sizes es)"
proof (induction rule: run.induct)
  case (retry q b es r u buf)
  from retry.hyps(2) retry.prems(1) have lt: "b < 2 ^ 63" by (meson not_le)
  with retry.prems(2) have g: "b < 2 * b" by (simp add: double_grows_iff)
  then have "2 * b \<noteq> 0" by (metis word_not_simps(1))
  from retry.IH [OF retry.prems(1) this] g show ?case
    by (auto simp: realloc_sizes_def)
qed (auto simp: realloc_sizes_def)

section \<open>The loop, forwards\<close>

text \<open>From the environment to the result: what the loop does when the allocator and
  the lookup answer in a given way. These lemmas unfold the loop, so they also hold for
  calls that are not yet known to return.\<close>

lemma first_buflen_max: "first_buflen os d = max 1024 (long_to_size_t (os_sysconf os (sc_of d)))"
  by (auto simp: first_buflen_def Let_def max_def)

lemma resolve_again_of:
  "resolve d os name ident w =
     again_of d os name ident NULL (first_buflen os d) (log (Sysconf (sc_of d)) w)"
  by (cases d)
     (simp_all add: de_username_to_uid_def de_groupname_to_gid_def first_buflen_def sysconf_def Let_def)

lemma again_of_eq:
  "again_of Passwd os = again os (user_category os)"
  "again_of Group os = again os (group_category os)"
  by (simp_all add: fun_eq_iff pw_again_eq gr_again_eq)


lemma long_to_size_t_id [simp]: "long_to_size_t sz = sz"
  by (simp add: long_to_size_t_def)

lemma negative_long_is_huge:
  assumes "sint (sz :: long) < 0"
  shows "uint (long_to_size_t sz) = 2 ^ 64 + sint sz" and "2 ^ 63 \<le> long_to_size_t sz"
proof -
  have lo: "- (2 ^ 63) \<le> sint sz" using sint_ge [of sz] by simp
  have "uint sz = sint sz mod 2 ^ 64"
    using uint_sint [of sz] by (simp add: take_bit_eq_mod)
  also have "\<dots> = (2 ^ 64 + sint sz) mod 2 ^ 64"
    by simp
  also have "\<dots> = 2 ^ 64 + sint sz"
    using assms lo by (intro mod_pos_pos_trivial) auto
  finally show u: "uint (long_to_size_t sz) = 2 ^ 64 + sint sz" by simp
  show "2 ^ 63 \<le> long_to_size_t sz"
    using u lo by (simp add: word_le_def)
qed

lemma again_finds:
  "\<forall>j<k. os_can_alloc os (b * 2 ^ j) \<and>
          (j = 0 \<and> buf = NULL \<or> b * 2 ^ j \<noteq> 0 \<or> \<not> os_realloc0_frees os) \<and>
          ec_of c name (b * 2 ^ j) = ERANGE \<Longrightarrow>
   os_can_alloc os (b * 2 ^ k) \<Longrightarrow>
   k = 0 \<and> buf = NULL \<or> b * 2 ^ k \<noteq> 0 \<or> \<not> os_realloc0_frees os \<Longrightarrow>
   cat_query c name (b * 2 ^ k) = (0, Some e) \<Longrightarrow>
   \<exists>w'. again os c name ident buf b w = Some (0, cat_id c e, w')"
proof (induction k arbitrary: buf b w)
  case 0
  obtain q w1 where r: "realloc os buf b w = (q, w1)" by fastforce
  with 0 realloc_null_iff [OF r] have "q \<noteq> NULL" by simp
  with r 0 show ?case
    by (subst again.simps) (simp add: lookup_r_def)
next
  case (Suc k)
  obtain q w1 where r: "realloc os buf b w = (q, w1)" by fastforce
  from Suc.prems(1) have z: "os_can_alloc os b"
    "buf = NULL \<or> b \<noteq> 0 \<or> \<not> os_realloc0_frees os" "ec_of c name b = ERANGE"
    by (auto dest: spec [where x = 0])
  with realloc_null_iff [OF r] have q: "q \<noteq> NULL" by simp
  have step: "again os c name ident buf b w =
              again os c name ident q (b * 2) (log (Lookup (cat_db c) name q b) w1)"
    using r q z(3) by (subst again.simps) (auto simp: lookup_r_def ec_of_def split: prod.splits)
  have "\<exists>w'. again os c name ident q (b * 2) (log (Lookup (cat_db c) name q b) w1) =
          Some (0, cat_id c e, w')"
  proof (rule Suc.IH)
    show "\<forall>j<k. os_can_alloc os (b * 2 * 2 ^ j) \<and>
          (j = 0 \<and> q = NULL \<or> b * 2 * 2 ^ j \<noteq> 0 \<or> \<not> os_realloc0_frees os) \<and>
          ec_of c name (b * 2 * 2 ^ j) = ERANGE"
    proof (intro allI impI)
      fix j assume "j < k"
      then have "Suc j < Suc k" by simp
      with Suc.prems(1) show "os_can_alloc os (b * 2 * 2 ^ j) \<and>
          (j = 0 \<and> q = NULL \<or> b * 2 * 2 ^ j \<noteq> 0 \<or> \<not> os_realloc0_frees os) \<and>
          ec_of c name (b * 2 * 2 ^ j) = ERANGE"
        by (auto simp: mult.assoc dest!: spec [where x = "Suc j"])
    qed
    from Suc.prems(2) show "os_can_alloc os (b * 2 * 2 ^ k)" by (simp add: mult.assoc)
    from Suc.prems(3) show "k = 0 \<and> q = NULL \<or> b * 2 * 2 ^ k \<noteq> 0 \<or> \<not> os_realloc0_frees os"
      by (auto simp: mult.assoc)
    from Suc.prems(4) show "cat_query c name (b * 2 * 2 ^ k) = (0, Some e)" by (simp add: mult.assoc)
  qed
  with step show ?case by simp
qed

lemma resolve_again:
  "de_username_to_uid os name ident w =
     again os (user_category os) name ident NULL (first_buflen os Passwd) (log (Sysconf SC_GETPW_R_SIZE_MAX) w)"
  "de_groupname_to_gid os name ident w =
     again os (group_category os) name ident NULL (first_buflen os Group) (log (Sysconf SC_GETGR_R_SIZE_MAX) w)"
  by (simp_all add: de_username_to_uid_def de_groupname_to_gid_def first_buflen_def sysconf_def Let_def
       pw_again_eq gr_again_eq)

lemma again_terminates:
  "N \<le> 2 ^ 63 \<Longrightarrow> \<forall>n\<ge>N. ec_of c name n \<noteq> ERANGE \<or> \<not> os_can_alloc os n \<Longrightarrow> b \<noteq> 0 \<Longrightarrow>
   again os c name ident buf b w \<noteq> None"
proof (induction "unat N - unat b" arbitrary: b buf w rule: less_induct)
  case less
  obtain q w1 where r: "realloc os buf b w = (q, w1)" by fastforce
  show ?case
  proof (cases "q \<noteq> NULL \<and> ec_of c name b = ERANGE")
    case False
    with r show ?thesis
      by (subst again.simps) (auto simp: lookup_r_def ec_of_def split: prod.splits)
  next
    case True
    with realloc_null_iff [OF r] have can: "os_can_alloc os b" by simp
    with True less.prems(2) have "\<not> N \<le> b" by blast
    then have lt: "b < N" by simp
    with less.prems(1) have "b < 2 ^ 63" by simp
    with less.prems(3) have g: "b < 2 * b" by (simp add: double_grows_iff)
    then have nz: "2 * b \<noteq> 0" by (metis word_not_simps(1))
    from g lt have "unat N - unat (2 * b) < unat N - unat b"
      by (simp add: word_less_nat_alt) 
    from less.hyps [OF this less.prems(1,2) nz]
    have "again os c name ident q (2 * b) (log (Lookup (cat_db c) name q b) w1) \<noteq> None" .
    with r True show ?thesis
      by (subst again.simps) (auto simp: lookup_r_def ec_of_def mult.commute split: prod.splits)
  qed
qed

subsection \<open>A call that never returns\<close>

lemma pw_again_spins:
  "pw_again os name uid buf b w = Some y \<Longrightarrow> os = os_spin \<Longrightarrow> even b \<Longrightarrow> False"
proof (induction rule: pw_again_induct)
  case (step f os name uid buf b w y)
  from step(4) have "b \<noteq> - 1" by auto
  with step(2,3,4) obtain q w1 where "f os name uid q (b * 2) w1 = Some y"
    by (auto simp: os_spin_def realloc_def getpwnam_r_def Let_def split: prod.splits if_splits)
  then show ?case
    using step(1) [of os name uid q "b * 2" w1] step(3) by (cases y) simp
qed

lemma os_spin_sysconf: "os_sysconf os_spin n = 1024"
  by (simp add: os_spin_def)

lemma spin_never_returns: "de_username_to_uid os_spin name uid w = None"
proof (cases "de_username_to_uid os_spin name uid w")
  case (Some y)
  then have "pw_again os_spin name uid NULL 1024 (log (Sysconf SC_GETPW_R_SIZE_MAX) w) = Some y"
    by (simp add: de_username_to_uid_def sysconf_def os_spin_sysconf Let_def long_to_size_t_def)
  from pw_again_spins [OF this] show ?thesis by simp
qed simp

section \<open>The heap after a call\<close>

text \<open>
  A call that returns leaves the heap as it found it, with one exception: when a
  \<^verbatim>\<open>realloc\<close> of a buffer that is not null returns null, the call returns -1 and the old
  block \<open>p\<close> is still live. (The source assigns the result of \<^verbatim>\<open>realloc\<close> to \<^verbatim>\<open>buf\<close>
  and returns on null, so the pointer to the old block is lost.)
\<close>

lemma fold_max_ge: "(a::nat) \<le> fold max xs a \<and> (\<forall>x\<in>set xs. x \<le> fold max xs a)"
proof (induction xs arbitrary: a)
  case (Cons y ys)
  from Cons [of "max y a"] show ?case by auto
qed simp

lemma fresh_notin: "fresh h \<notin> fst ` set h"
proof
  assume "fresh h \<in> fst ` set h"
  then have "fresh h \<in> set (map fst h)" by simp
  with fold_max_ge [of 0 "map fst h"] have "fresh h \<le> fold max (map fst h) 0" by blast
  then show False by (simp add: fresh_def)
qed

lemma release_absent: "p \<notin> fst ` set h \<Longrightarrow> release p h = h"
  by (auto simp: release_def filter_id_conv)

lemma release_head: "p \<noteq> NULL \<Longrightarrow> p \<notin> fst ` set h \<Longrightarrow> release p ((p, m) # h) = h"
  by (auto simp: release_def filter_id_conv)

lemma realloc_calls_append: "realloc_calls (xs @ ys) = realloc_calls xs @ realloc_calls ys"
  by (induction xs rule: realloc_calls.induct) auto

lemma last_realloc_alt:
  "last_realloc es = (if realloc_calls es = [] then None else Some (last (realloc_calls es)))"
  by (simp add: last_realloc_def split: list.splits)

lemma last_realloc_append:
  "last_realloc ys = Some c \<Longrightarrow> last_realloc (xs @ ys) = Some c"
  by (auto simp: last_realloc_alt realloc_calls_append split: if_splits)

lemma leaked_now:
  "p \<noteq> NULL \<Longrightarrow> heap w' = (p, m) # h \<Longrightarrow> trace w' = tr @ [Realloc p n NULL] \<Longrightarrow>
   leaked h tr (- 1) w'"
  unfolding leaked_def
  by (intro exI [of _ p] exI [of _ n] exI [of _ m] exI [of _ "[Realloc p n NULL]"])
     (simp add: last_realloc_def)

lemma leaked_later:
  assumes "leaked h (tr @ pre) r w'"
  shows "leaked h tr r w'"
proof -
  from assms obtain p n m es where
    l: "p \<noteq> NULL" "r = - 1" "heap w' = (p, m) # h" "trace w' = (tr @ pre) @ es"
       "last_realloc es = Some (p, n, NULL)"
    unfolding leaked_def by blast
  from l(5) have "last_realloc (pre @ es) = Some (p, n, NULL)"
    by (rule last_realloc_append)
  with l(1,2,3,4) show ?thesis
    unfolding leaked_def
    by (intro exI [of _ p] exI [of _ n] exI [of _ m] exI [of _ "pre @ es"]) simp
qed

lemma again_heap:
  "again os c name ident buf b w = Some y \<Longrightarrow> holds_only buf h w \<Longrightarrow>
   heap (snd (snd y)) = h \<or> leaked h (trace w) (fst y) (snd (snd y))"
proof (induction rule: again_induct)
  case (step f os c name ident buf b w y)
  obtain q w1 where r: "realloc os buf b w = (q, w1)" by fastforce
  note t1 = realloc_trace [OF r]
  show ?case
  proof (cases "q = NULL")
    case True
    with step(2) r have y: "y = (- 1, ident, w1)" by simp
    show ?thesis
    proof (cases "buf \<noteq> NULL \<and> b = 0 \<and> os_realloc0_frees os")
      case True
      with step(3) obtain m where "buf \<notin> fst ` set h" "heap w = (buf, m) # h"
        by (auto simp: holds_only_def)
      with True have "release buf (heap w) = h"
        by (simp add: release_head)
      with True r have "heap w1 = h"
        by (auto simp: realloc_def)
      with y show ?thesis by simp
    next
      case False
      with r \<open>q = NULL\<close> have h1: "heap w1 = heap w"
        by (auto simp: realloc_def Let_def split: if_splits)
      show ?thesis
      proof (cases "buf = NULL")
        case True
        with step(3) h1 y show ?thesis by (simp add: holds_only_def)
      next
        case False
        with step(3) h1 obtain m where "heap w1 = (buf, m) # h"
          by (auto simp: holds_only_def)
        with False t1 \<open>q = NULL\<close> have "leaked h (trace w) (- 1) w1"
          by (intro leaked_now [of buf _ m _ _ b]) simp_all
        with y show ?thesis by simp
      qed
    qed
  next
    case q: False
    with r have hq: "q = fresh (heap w)" "heap w1 = (q, b) # release buf (heap w)"
      by (auto simp: realloc_def Let_def split: if_splits)
    have rel: "release buf (heap w) = h"
    proof (cases "buf = NULL")
      case True
      with step(3) show ?thesis by (simp add: holds_only_def release_def)
    next
      case False
      with step(3) obtain m where "buf \<notin> fst ` set h" "heap w = (buf, m) # h"
        by (auto simp: holds_only_def)
      with False show ?thesis by (simp add: release_head)
    qed
    have qh: "q \<notin> fst ` set h"
    proof (cases "buf = NULL")
      case True
      with step(3) have "heap w = h" by (simp add: holds_only_def)
      with fresh_notin [of "heap w"] hq(1) show ?thesis by simp
    next
      case False
      with step(3) obtain m where "heap w = (buf, m) # h"
        by (auto simp: holds_only_def)
      with fresh_notin [of "heap w"] hq(1) show ?thesis by simp
    qed
    let ?w2 = "log (Lookup (cat_db c) name q b) w1"
    from hq(2) rel have h2: "heap ?w2 = (q, b) # h" by simp
    with qh q have inv: "holds_only q h ?w2"
      by (simp add: holds_only_def)
    from h2 qh q have fr: "heap (free q ?w2) = h"
      by (simp add: free_def release_head)
    obtain ec pp where a: "cat_query c name b = (ec, pp)" by fastforce
    have t2: "trace ?w2 = trace w @ [Realloc buf b q, Lookup (cat_db c) name q b]"
      using t1 by simp
    show ?thesis
    proof (cases "ec = ERANGE")
      case True
      with step(2) r q a have "f os c name ident q (b * 2) ?w2 = Some y"
        by (simp add: lookup_r_def)
      from step(1) [OF this inv]
      have "heap (snd (snd y)) = h \<or> leaked h (trace ?w2) (fst y) (snd (snd y))" .
      then show ?thesis
      proof (elim disjE)
        assume "heap (snd (snd y)) = h" then show ?thesis by (rule disjI1)
      next
        assume "leaked h (trace ?w2) (fst y) (snd (snd y))"
        then have "leaked h (trace w @ [Realloc buf b q, Lookup (cat_db c) name q b]) (fst y) (snd (snd y))"
          unfolding t2 .
        then have "leaked h (trace w) (fst y) (snd (snd y))" by (rule leaked_later)
        then show ?thesis by (rule disjI2)
      qed
    next
      case False
      with step(2) r q a have "snd (snd y) = free q ?w2"
        by (auto simp: lookup_r_def split: if_splits)
      with fr show ?thesis by simp
    qed
  qed
qed


lemma heap_restored_unless_growth_fails:
  assumes "resolve d os name ident w = Some (r, u, w')"
  shows "heap w' = heap w \<or>
         (\<exists>p n m. p \<noteq> NULL \<and> r = - 1 \<and> heap w' = (p, m) # heap w \<and>
            last_realloc (new_events w w') = Some (p, n, NULL))"
proof -
  let ?w1 = "log (Sysconf (sc_of d)) w"
  have i: "holds_only NULL (heap w) ?w1"
    by (simp add: holds_only_def)
  have "heap w' = heap w \<or> leaked (heap w) (trace ?w1) r w'"
  proof (cases d)
    case Passwd
    with assms have "again os (user_category os) name ident NULL (first_buflen os d) ?w1 =
        Some (r, u, w')"
      by (simp add: resolve_again)
    from again_heap [OF this i] show ?thesis by simp
  next
    case Group
    with assms have "again os (group_category os) name ident NULL (first_buflen os d) ?w1 =
        Some (r, u, w')"
      by (simp add: resolve_again)
    from again_heap [OF this i] show ?thesis by simp
  qed
  then show ?thesis
  proof (elim disjE)
    assume "heap w' = heap w" then show ?thesis by (rule disjI1)
  next
    assume "leaked (heap w) (trace ?w1) r w'"
    then have "leaked (heap w) (trace w @ [Sysconf (sc_of d)]) r w'" by simp
    then have "leaked (heap w) (trace w) r w'" by (rule leaked_later)
    then obtain p n m es where
      l: "p \<noteq> NULL" "r = - 1" "heap w' = (p, m) # heap w" "trace w' = trace w @ es"
         "last_realloc es = Some (p, n, NULL)"
      unfolding leaked_def by blast
    from l(4) have "new_events w w' = es" by simp
    with l(1,2,3,5) have "p \<noteq> NULL \<and> r = - 1 \<and> heap w' = (p, m) # heap w \<and>
            last_realloc (new_events w w') = Some (p, n, NULL)"
      by simp
    then show ?thesis by blast
  qed
qed

section \<open>The log of a call, forwards\<close>






section \<open>Calls in the concrete environments\<close>


lemma alice_found: "resolve Passwd os_small ''alice'' 7 w0 = Some (0, 1000, w_alice)"
  by code_simp


lemma bob_absent: "resolve Passwd os_small ''bob'' 7 w0 = Some (- 1, 7, w_bob)"
  by code_simp

lemma bounded_small: "bounded_allocator os_small"
  by (simp add: bounded_allocator_def os_small_def word_le_nat_alt)

lemma bounded_no_hint: "bounded_allocator os_no_hint"
  by (simp add: bounded_allocator_def os_no_hint_def os_small_def word_le_nat_alt word_less_nat_alt)

lemma alice_fits: "fits_from Passwd os_small ''alice'' 4096"
  by (simp add: fits_from_def os_small_def word_le_nat_alt word_less_nat_alt)

section \<open>The claims\<close>

text \<open>
  C1. The claim: on every exit path, a failed \<^verbatim>\<open>realloc\<close> during growth included, the
  scratch buffer is released before the call returns. The code does not do this on that
  one path. On \<open>os_short\<close> the first lookup of \<open>alice\<close> (of \<open>staff\<close>) reports \<^verbatim>\<open>ERANGE\<close> with
  1024 bytes, \<^verbatim>\<open>realloc(buf, 2048)\<close> returns null, and the call returns -1 with the
  1024-byte block at address 1 still in the heap, which was empty before the call.
  \<open>heap_restored_unless_growth_fails\<close> shows that every other exit path restores the heap.
\<close>

theorem growth_failure_leaks_old_buffer:
  "de_username_to_uid os_short ''alice'' 7 w0 =
     Some (- 1, 7, \<lparr>heap = [(1, 1024)],
                     trace = [Sysconf SC_GETPW_R_SIZE_MAX, Realloc NULL 1024 1,
                              Lookup Passwd ''alice'' 1 1024, Realloc 1 2048 NULL]\<rparr>) \<and>
   de_groupname_to_gid os_short ''staff'' 7 w0 =
     Some (- 1, 7, \<lparr>heap = [(1, 1024)],
                     trace = [Sysconf SC_GETGR_R_SIZE_MAX, Realloc NULL 1024 1,
                              Lookup Group ''staff'' 1 1024, Realloc 1 2048 NULL]\<rparr>)"
  by code_simp





text \<open>
  C4. When the lookup succeeds with a matching entry, the call returns 0 and the output
  cell holds the identifier of that entry (\<^verbatim>\<open>pw_uid\<close> for users, \<^verbatim>\<open>gr_gid\<close> for groups).
  Stated from the environment, so that the call returning is part of the conclusion: if
  the first \<open>k\<close> passes are granted their buffer and report \<^verbatim>\<open>ERANGE\<close>, and pass \<open>k\<close> is
  granted its buffer and the lookup answers with no error and an entry of identifier
  \<open>v\<close>, then the call returns 0 with \<open>v\<close> in the cell.
\<close>

theorem matching_entry_is_returned:
  "\<forall>j<k. grants os j (first_buflen os d * 2 ^ j) \<and>
          reported d os name (first_buflen os d * 2 ^ j) = ERANGE \<Longrightarrow>
   grants os k (first_buflen os d * 2 ^ k) \<Longrightarrow>
   reported d os name (first_buflen os d * 2 ^ k) = 0 \<Longrightarrow>
   matched d os name (first_buflen os d * 2 ^ k) = Some v \<Longrightarrow>
   \<exists>w'. resolve d os name ident w = Some (0, v, w')"
proof (cases d)
  case Passwd
  assume a: "\<forall>j<k. grants os j (first_buflen os d * 2 ^ j) \<and>
          reported d os name (first_buflen os d * 2 ^ j) = ERANGE"
    "grants os k (first_buflen os d * 2 ^ k)"
    "reported d os name (first_buflen os d * 2 ^ k) = 0"
    "matched d os name (first_buflen os d * 2 ^ k) = Some v"
  from a(3,4) Passwd obtain e where
    e: "os_getpwnam_r os name (first_buflen os Passwd * 2 ^ k) = (0, Some e)" "pw_uid e = v"
    by (cases "os_getpwnam_r os name (first_buflen os Passwd * 2 ^ k)") auto
  from a(1,2) Passwd e(1)
  have "\<exists>w'. again os (user_category os) name ident NULL (first_buflen os Passwd)
               (log (Sysconf SC_GETPW_R_SIZE_MAX) w) = Some (0, cat_id (user_category os) e, w')"
    by (intro again_finds) (auto simp: grants_def ec_of_def)
  with e(2) Passwd show ?thesis by (simp add: resolve_again)
next
  case Group
  assume a: "\<forall>j<k. grants os j (first_buflen os d * 2 ^ j) \<and>
          reported d os name (first_buflen os d * 2 ^ j) = ERANGE"
    "grants os k (first_buflen os d * 2 ^ k)"
    "reported d os name (first_buflen os d * 2 ^ k) = 0"
    "matched d os name (first_buflen os d * 2 ^ k) = Some v"
  from a(3,4) Group obtain e where
    e: "os_getgrnam_r os name (first_buflen os Group * 2 ^ k) = (0, Some e)" "gr_gid e = v"
    by (cases "os_getgrnam_r os name (first_buflen os Group * 2 ^ k)") auto
  from a(1,2) Group e(1)
  have "\<exists>w'. again os (group_category os) name ident NULL (first_buflen os Group)
               (log (Sysconf SC_GETGR_R_SIZE_MAX) w) = Some (0, cat_id (group_category os) e, w')"
    by (intro again_finds) (auto simp: grants_def ec_of_def)
  with e(2) Group show ?thesis by (simp add: resolve_again)
qed

theorem matching_entry_is_returned_witness:
  "first_buflen os_small Passwd = 1024 \<and>
   grants os_small 0 1024 \<and> reported Passwd os_small ''alice'' 1024 = ERANGE \<and>
   grants os_small 1 2048 \<and> reported Passwd os_small ''alice'' 2048 = ERANGE \<and>
   grants os_small 2 4096 \<and> reported Passwd os_small ''alice'' 4096 = 0 \<and>
   matched Passwd os_small ''alice'' 4096 = Some 1000 \<and>
   (\<exists>w'. resolve Passwd os_small ''alice'' 7 w0 = Some (0, 1000, w'))"
proof -
  have e: "first_buflen os_small Passwd = 1024"
   "grants os_small 0 1024" "reported Passwd os_small ''alice'' 1024 = ERANGE"
   "grants os_small 1 2048" "reported Passwd os_small ''alice'' 2048 = ERANGE"
   "grants os_small 2 4096" "reported Passwd os_small ''alice'' 4096 = 0"
   "matched Passwd os_small ''alice'' 4096 = Some 1000"
    by code_simp+
  have r: "\<forall>j<2. grants os_small j (first_buflen os_small Passwd * 2 ^ j) \<and>
            reported Passwd os_small ''alice'' (first_buflen os_small Passwd * 2 ^ j) = ERANGE"
    using e by (auto simp: less_Suc_eq numeral_2_eq_2)
  from matching_entry_is_returned [of 2 os_small Passwd "''alice''" 1000 7 w0, OF r] e
  show ?thesis by simp
qed

text \<open>
  C5, as amended. The claim that every retry strictly increases the length fails where
  the doubling wraps: \<open>2^63 * 2 = 0\<close> in \<^verbatim>\<open>size_t\<close>. What holds: in a call that returns,
  each \<^verbatim>\<open>realloc\<close> asks for twice the length of the one before, modulo \<open>2^64\<close>, and
  the new length is greater than the old one exactly when the old one is not 0 and below
  \<open>2^63\<close>. With an allocator that refuses \<open>2^63\<close> bytes or more, every retry strictly
  increases the length.
\<close>

theorem retry_doubles_and_grows_below_half_range:
  "resolve d os name ident w = Some (r, u, w') \<Longrightarrow>
   successively (\<lambda>m n. n = 2 * m \<and> (m < n \<longleftrightarrow> m \<noteq> 0 \<and> m < 2 ^ 63))
     (realloc_sizes (new_events w w')) \<and>
   (bounded_allocator os \<longrightarrow> successively (<) (realloc_sizes (new_events w w')))"
proof -
  assume a: "resolve d os name ident w = Some (r, u, w')"
  from resolve_run [OF a] obtain es where
    t: "trace w' = trace w @ Sysconf (sc_of d) # es" and
    r: "run (os_can_alloc os) (reported d os name) (matched d os name) d name ident NULL
       (first_buflen os d) es r u"
    by blast
  from t have n: "realloc_sizes (new_events w w') = realloc_sizes es"
    by (simp add: realloc_sizes_def)
  have "first_buflen os d \<noteq> 0"
    by (auto simp: first_buflen_def Let_def)
  with run_grows [OF r] run_doubles [OF r] n show ?thesis
    by (simp add: bounded_allocator_def)
qed

theorem retry_doubles_and_grows_below_half_range_witness:
  "resolve Passwd os_small ''alice'' 7 w0 = Some (0, 1000, w_alice) \<and>
   bounded_allocator os_small \<and>
   realloc_sizes (new_events w0 w_alice) = [1024, 2048, 4096] \<and>
   successively (<) (realloc_sizes (new_events w0 w_alice))"
proof -
  have e: "realloc_sizes (new_events w0 w_alice) = [1024, 2048, 4096]"
    by code_simp
  from retry_doubles_and_grows_below_half_range [OF alice_found] alice_found bounded_small e
  show ?thesis by simp
qed

text \<open>
  C5 as stated fails: on \<open>os_wrap\<close> the call asks for \<open>2^62\<close>, \<open>2^63\<close> and then 0 bytes, so
  its second retry does not increase the length.
\<close>

theorem doubling_wraps_to_zero:
  "resolve Passwd os_wrap ''alice'' 7 w0 = Some (- 1, 7, w_wrap) \<and>
   realloc_sizes (new_events w0 w_wrap) = [2 ^ 62, 2 ^ 63, 0] \<and>
   \<not> successively (<) (realloc_sizes (new_events w0 w_wrap))"
  by code_simp

text \<open>
  C6, as amended. The loop goes round only after \<^verbatim>\<open>ERANGE\<close> (C2) and otherwise returns
  0 or -1. It returns after finitely many passes if the lookup stops reporting \<^verbatim>\<open>ERANGE\<close>
  from some length \<open>N\<close> on with \<open>N \<le> 2^63\<close>, a length the doubling reaches before it
  wraps; or if the allocator refuses \<open>2^63\<close> bytes or more. A bound \<open>N\<close> above \<open>2^63\<close> is
  not enough, as the environment \<open>os_spin\<close> shows below.
\<close>

theorem terminates_when_fit_is_reachable:
  "N \<le> 2 ^ 63 \<and> fits_from d os name N \<or> bounded_allocator os \<Longrightarrow>
   \<exists>r u w'. resolve d os name ident w = Some (r, u, w') \<and> (r = 0 \<or> r = - 1)"
proof -
  assume a: "N \<le> 2 ^ 63 \<and> fits_from d os name N \<or> bounded_allocator os"
  have nz: "first_buflen os d \<noteq> 0"
    by (auto simp: first_buflen_def Let_def)
  from a obtain M :: size_t where
    M: "M \<le> 2 ^ 63" "\<forall>n\<ge>M. reported d os name n \<noteq> ERANGE \<or> \<not> os_can_alloc os n"
  proof
    assume "N \<le> 2 ^ 63 \<and> fits_from d os name N"
    then show ?thesis using that [of N] by (simp add: fits_from_def)
  next
    assume "bounded_allocator os"
    then show ?thesis using that [of "2 ^ 63"] by (simp add: bounded_allocator_def)
  qed
  have "resolve d os name ident w \<noteq> None"
  proof (cases d)
    case Passwd
    with M nz show ?thesis
      using again_terminates [of M "user_category os" name os "first_buflen os Passwd"]
      by (simp add: resolve_again answers_user)
  next
    case Group
    with M nz show ?thesis
      using again_terminates [of M "group_category os" name os "first_buflen os Group"]
      by (simp add: resolve_again answers_group)
  qed
  then obtain r u w' where y: "resolve d os name ident w = Some (r, u, w')"
    by (metis not_None_eq prod_cases3)
  from resolve_run [OF y] obtain es where
    "run (os_can_alloc os) (reported d os name) (matched d os name) d name ident NULL
       (first_buflen os d) es r u"
    by blast
  then have "r = 0 \<or> r = - 1" by (rule run_ret)
  with y show ?thesis by blast
qed

theorem terminates_when_fit_is_reachable_witness:
  "(4096 :: size_t) \<le> 2 ^ 63 \<and> fits_from Passwd os_small ''alice'' 4096 \<and>
   (\<exists>r u w'. resolve Passwd os_small ''alice'' 7 w0 = Some (r, u, w') \<and> (r = 0 \<or> r = - 1)) \<and>
   bounded_allocator os_wrap_bounded \<and>
   (\<exists>r u w'. resolve Group os_wrap_bounded ''staff'' 7 w0 = Some (r, u, w') \<and> (r = 0 \<or> r = - 1))"
proof -
  have h: "(4096 :: size_t) \<le> 2 ^ 63" by simp
  have b: "bounded_allocator os_wrap_bounded"
    by (simp add: bounded_allocator_def os_wrap_bounded_def os_wrap_def word_le_nat_alt
          word_less_nat_alt)
  from terminates_when_fit_is_reachable [of 4096 Passwd os_small "''alice''" 7 w0]
    terminates_when_fit_is_reachable [of 0 Group os_wrap_bounded "''staff''" 7 w0]
    h alice_fits b
  show ?thesis by simp
qed

text \<open>
  C6 as stated fails: on \<open>os_spin\<close> the lookup reports something other than \<^verbatim>\<open>ERANGE\<close>
  for every length from \<open>2^64 - 1\<close> on, yet the call never returns: the lengths it tries
  are 1024, 2048, ..., \<open>2^63\<close> and then 0 for ever.
\<close>

theorem unreachable_fit_never_returns:
  "\<not> ((\<exists>N. fits_from Passwd os_spin ''alice'' N) \<longrightarrow>
      (\<exists>y. resolve Passwd os_spin ''alice'' 7 w0 = Some y))"
proof -
  have "fits_from Passwd os_spin ''alice'' (- 1)"
    by (auto simp: fits_from_def os_spin_def word_order.extremum_unique)
  with spin_never_returns show ?thesis by auto
qed

text \<open>
  C7, as amended. The first buffer is not always of the suggested size: the source
  starts from 1024 and takes the suggestion only when it is larger, as an unsigned
  number. What holds: every call begins by asking \<^verbatim>\<open>sysconf\<close> (nothing is kept from
  one call to the next), then enters the loop with a null buffer and the larger of 1024
  and the suggestion converted to \<^verbatim>\<open>size_t\<close>; in the log of a call that returns, the
  \<^verbatim>\<open>sysconf\<close> call comes first, the \<^verbatim>\<open>realloc\<close> of that size second, before any
  lookup, and \<^verbatim>\<open>sysconf\<close> is not called again.
\<close>

theorem initial_size_is_hint_or_1024:
  "resolve d os name ident w =
     again_of d os name ident NULL (max 1024 (long_to_size_t (os_sysconf os (sc_of d))))
       (log (Sysconf (sc_of d)) w) \<and>
   (resolve d os name ident w = Some (r, u, w') \<longrightarrow>
      (\<exists>q es. new_events w w' =
                 Sysconf (sc_of d) #
                 Realloc NULL (max 1024 (long_to_size_t (os_sysconf os (sc_of d)))) q # es \<and>
              sysconf_calls es = []))"
proof (intro conjI impI)
  show "resolve d os name ident w =
     again_of d os name ident NULL (max 1024 (long_to_size_t (os_sysconf os (sc_of d))))
       (log (Sysconf (sc_of d)) w)"
    using resolve_again_of by (simp add: first_buflen_max)
next
  assume a: "resolve d os name ident w = Some (r, u, w')"
  from resolve_run [OF a] obtain es where
    t: "trace w' = trace w @ Sysconf (sc_of d) # es" and
    r: "run (os_can_alloc os) (reported d os name) (matched d os name) d name ident NULL
       (first_buflen os d) es r u"
    by blast
  from r obtain q es' where "es = Realloc NULL (first_buflen os d) q # es'"
    by (cases rule: run.cases) auto
  with t run_no_sysconf [OF r]
  show "\<exists>q es. new_events w w' =
                 Sysconf (sc_of d) #
                 Realloc NULL (max 1024 (long_to_size_t (os_sysconf os (sc_of d)))) q # es \<and>
              sysconf_calls es = []"
    by (simp add: first_buflen_max)
qed

theorem initial_size_is_hint_or_1024_witness:
  "resolve Passwd os_small ''alice'' 7 w0 = Some (0, 1000, w_alice) \<and>
   max 1024 (long_to_size_t (os_sysconf os_small (sc_of Passwd))) = 1024 \<and>
   new_events w0 w_alice =
     Sysconf SC_GETPW_R_SIZE_MAX # Realloc NULL 1024 1 # drop 2 (trace w_alice) \<and>
   sysconf_calls (drop 2 (trace w_alice)) = []"
proof -
  have e: "max 1024 (long_to_size_t (os_sysconf os_small (sc_of Passwd))) = 1024"
    "new_events w0 w_alice =
     Sysconf SC_GETPW_R_SIZE_MAX # Realloc NULL 1024 1 # drop 2 (trace w_alice)"
    "sysconf_calls (drop 2 (trace w_alice)) = []"
    by code_simp+
  from initial_size_is_hint_or_1024 [of Passwd os_small "''alice''" 7 w0 0 1000 w_alice]
    alice_found e
  show ?thesis by simp
qed

text \<open>
  C7 as stated fails: on \<open>os_hint512\<close> the suggestion is 512 bytes and the first buffer
  has 1024.
\<close>

theorem suggestion_below_1024_is_not_used:
  "resolve Passwd os_hint512 ''alice'' 7 w0 = Some (0, 1000, w_alice) \<and>
   long_to_size_t (os_sysconf os_hint512 SC_GETPW_R_SIZE_MAX) = 512 \<and>
   hd (realloc_sizes (new_events w0 w_alice)) = 1024 \<and>
   hd (realloc_sizes (new_events w0 w_alice)) \<noteq>
     long_to_size_t (os_sysconf os_hint512 SC_GETPW_R_SIZE_MAX)"
  by code_simp

text \<open>
  C8. \<^verbatim>\<open>de_groupname_to_gid\<close> has the contract of \<^verbatim>\<open>de_username_to_uid\<close>: the two
  functions, each translated from its own source text, are the one parameterised
  resolver \<open>de_name_to_id\<close> at two categories. The categories differ in the database
  (its \<^verbatim>\<open>sysconf\<close> name, its tag in the log, its lookup) and in the field returned, and in
  nothing else: the initial size, the loop, the conditions of success and failure and
  the values returned are those of \<open>de_name_to_id\<close> for both.
\<close>

theorem same_algorithm_two_categories:
  "de_username_to_uid os =
     de_name_to_id os \<lparr>cat_sc = SC_GETPW_R_SIZE_MAX, cat_db = Passwd,
                        cat_query = os_getpwnam_r os, cat_id = pw_uid\<rparr> \<and>
   de_groupname_to_gid os =
     de_name_to_id os \<lparr>cat_sc = SC_GETGR_R_SIZE_MAX, cat_db = Group,
                        cat_query = os_getgrnam_r os, cat_id = gr_gid\<rparr>"
  unfolding user_category_def [symmetric] group_category_def [symmetric]
  by (intro conjI ext) (rule de_username_to_uid_eq, rule de_groupname_to_gid_eq)

text \<open>
  C9. A call that does not return 0 returns -1 and leaves the output cell as it was:
  the cell is written only on the way to \<^verbatim>\<open>return 0\<close>.
\<close>

theorem failure_leaves_output_unchanged:
  "resolve d os name ident w = Some (r, u, w') \<Longrightarrow> r \<noteq> 0 \<Longrightarrow> r = - 1 \<and> u = ident"
proof -
  assume a: "resolve d os name ident w = Some (r, u, w')" and r: "r \<noteq> 0"
  from resolve_run [OF a] obtain es where
    "run (os_can_alloc os) (reported d os name) (matched d os name) d name ident NULL
       (first_buflen os d) es r u"
    by blast
  with r show ?thesis
    using run_ret run_failure_keeps by fastforce
qed

theorem failure_leaves_output_unchanged_witness:
  "resolve Passwd os_small ''bob'' 7 w0 = Some (- 1, 7, w_bob) \<and> (- 1 :: int) \<noteq> 0"
  using failure_leaves_output_unchanged [OF bob_absent] bob_absent by simp

text \<open>
  C10, as amended. If \<^verbatim>\<open>sysconf\<close> returns a negative value \<open>v\<close>, the comparison and the
  assignment both read it as the unsigned \<open>2^64 + v\<close>, at least \<open>2^63\<close>, and the loop is
  entered with that length (\<open>-1\<close> becomes \<open>2^64 - 1\<close>). That the allocation then fails is
  not a property of the code: it holds when the allocator refuses this request, as one
  that refuses \<open>2^63\<close> bytes or more does. Then the call returns -1 with the output cell
  and the heap untouched, having called \<^verbatim>\<open>sysconf\<close> and \<^verbatim>\<open>realloc\<close> and no lookup.
\<close>

theorem negative_hint_fails_before_lookup:
  "sint (os_sysconf os (sc_of d)) < 0 \<Longrightarrow>
   uint (long_to_size_t (os_sysconf os (sc_of d))) = 2 ^ 64 + sint (os_sysconf os (sc_of d)) \<and>
   2 ^ 63 \<le> long_to_size_t (os_sysconf os (sc_of d)) \<and>
   resolve d os name ident w =
     again_of d os name ident NULL (long_to_size_t (os_sysconf os (sc_of d)))
       (log (Sysconf (sc_of d)) w) \<and>
   (bounded_allocator os \<or> \<not> os_can_alloc os (long_to_size_t (os_sysconf os (sc_of d))) \<longrightarrow>
    resolve d os name ident w =
      Some (- 1, ident,
            w\<lparr>trace := trace w @ [Sysconf (sc_of d),
                 Realloc NULL (long_to_size_t (os_sysconf os (sc_of d))) NULL]\<rparr>))"
proof -
  assume neg: "sint (os_sysconf os (sc_of d)) < 0"
  let ?b = "long_to_size_t (os_sysconf os (sc_of d))"
  note h = negative_long_is_huge [OF neg]
  from h(2) have "1024 < ?b"
    by (simp add: word_le_def word_less_def)
  then have f: "first_buflen os d = ?b"
    by (simp add: first_buflen_def Let_def)
  have enter: "resolve d os name ident w =
     again_of d os name ident NULL ?b (log (Sysconf (sc_of d)) w)"
    using resolve_again_of [of d os name ident w] f by simp
  have fail: "resolve d os name ident w =
     Some (- 1, ident, w\<lparr>trace := trace w @ [Sysconf (sc_of d), Realloc NULL ?b NULL]\<rparr>)"
    if a: "bounded_allocator os \<or> \<not> os_can_alloc os ?b"
  proof -
    from a h(2) have no: "\<not> os_can_alloc os ?b"
      by (auto simp: bounded_allocator_def)
    show ?thesis
      unfolding resolve_again_of f using no
      by (cases d)
         (simp_all add: pw_again.simps gr_again.simps realloc_def log_def)
  qed
  from h enter fail show ?thesis by blast
qed

theorem negative_hint_fails_before_lookup_witness:
  "sint (os_sysconf os_no_hint (sc_of Passwd)) = - 1 \<and>
   bounded_allocator os_no_hint \<and>
   long_to_size_t (os_sysconf os_no_hint (sc_of Passwd)) = 18446744073709551615 \<and>
   resolve Passwd os_no_hint ''alice'' 7 w0 =
     Some (- 1, 7, \<lparr>heap = [], trace = [Sysconf SC_GETPW_R_SIZE_MAX,
                                         Realloc NULL 18446744073709551615 NULL]\<rparr>)"
proof -
  have s: "sint (os_sysconf os_no_hint (sc_of Passwd)) = - 1"
    by (simp add: os_no_hint_def)
  then have n: "sint (os_sysconf os_no_hint (sc_of Passwd)) < 0" by simp
  have e: "long_to_size_t (os_sysconf os_no_hint (sc_of Passwd)) = 18446744073709551615"
    by (simp add: os_no_hint_def)
  from negative_hint_fails_before_lookup [OF n, of "''alice''" 7 w0] bounded_no_hint
  have "resolve Passwd os_no_hint ''alice'' 7 w0 =
      Some (- 1, 7,
            w0\<lparr>trace := trace w0 @ [Sysconf (sc_of Passwd),
               Realloc NULL (long_to_size_t (os_sysconf os_no_hint (sc_of Passwd))) NULL]\<rparr>)"
    by blast
  with s e bounded_no_hint show ?thesis by (simp add: w0_def)
qed

text \<open>
  C10 as stated fails: on \<open>os_grants_all\<close> the suggestion is \<^verbatim>\<open>LONG_MIN\<close>, the first
  length is \<open>2^63\<close>, the allocator grants it, and the call queries the database and
  returns 0.
\<close>

theorem granted_huge_buffer_reaches_lookup:
  "sint (os_sysconf os_grants_all (sc_of Passwd)) < 0 \<and>
   long_to_size_t (os_sysconf os_grants_all (sc_of Passwd)) = 2 ^ 63 \<and>
   resolve Passwd os_grants_all ''alice'' 7 w0 =
     Some (0, 1000, \<lparr>heap = [], trace = [Sysconf SC_GETPW_R_SIZE_MAX,
        Realloc NULL 9223372036854775808 1, Lookup Passwd ''alice'' 1 9223372036854775808,
        Free 1]\<rparr>) \<and>
   lookup_calls (new_events w0 \<lparr>heap = [], trace = [Sysconf SC_GETPW_R_SIZE_MAX,
        Realloc NULL 9223372036854775808 1, Lookup Passwd ''alice'' 1 9223372036854775808,
        Free 1]\<rparr>) = [(Passwd, ''alice'', 2 ^ 63)]"
  by code_simp

end
